theory Spec2Isabelle
  imports Main "HOL-Library.Dlist"
begin

section \<open>Streamis: the subscription manager and its relay loop\<close>

text \<open>
  A shallow embedding of \<^verbatim>\<open>streamis.py\<close>: the classes \<^verbatim>\<open>Subscription\<close> and
  \<^verbatim>\<open>SubscriptionManager\<close>, and the queue of a listener (\<^verbatim>\<open>SSEHandler.queue\<close>).

  The program runs on one asyncio event loop, so code between two \<^verbatim>\<open>await\<close>s runs
  without interruption.  Each such stretch is one function on an explicit state, the
  \<open>world\<close>.  The \<^verbatim>\<open>Subscription\<close> objects live in a store, by address: the manager's
  dictionary and the broadcast task of a subscription both refer to the same object, and
  several properties depend on that sharing.  The store is a list and the address of an
  object is its position, so a new object never takes the place of an old one.  Objects
  are never collected in the model; an object that nothing refers to is simply garbage.
\<close>

subsection \<open>Data\<close>

type_synonym listener = nat
type_synonym addr = nat
type_synonym msg = string
type_synonym handle = nat

text \<open>
  The exceptions the modelled code can meet.  \<open>AttributeError\<close>: \<^verbatim>\<open>self._redis\<close> is
  \<^verbatim>\<open>None\<close> (the manager never connected).  \<open>SourceUnavailable\<close>: \<^verbatim>\<open>redis.subscribe\<close>
  raised.  \<open>SourceClosed\<close>: \<^verbatim>\<open>channel.get()\<close> raised.  \<open>QueueFull\<close>: \<^verbatim>\<open>put_nowait\<close> on a
  full queue.  \<open>KeyError\<close>: \<^verbatim>\<open>set.remove\<close> of an element that is not in the set.
\<close>

datatype error = AttributeError | SourceUnavailable | SourceClosed | QueueFull | KeyError

text \<open>
  \<^verbatim>\<open>asyncio.Queue(maxsize)\<close>: \<open>maxsize = 0\<close> is the unbounded queue, which is what
  \<^verbatim>\<open>SSEHandler.initialize\<close> creates (\<^verbatim>\<open>Queue()\<close>).  The manager accepts any object with
  a \<^verbatim>\<open>queue\<close>, so the bound is kept as a field.
\<close>

record lqueue =
  items :: "msg list"
  maxsize :: nat

definition full :: "lqueue \<Rightarrow> bool" where
  "full q = (if maxsize q = 0 then False else maxsize q \<le> length (items q))"

definition put_nowait :: "msg \<Rightarrow> lqueue \<Rightarrow> error + lqueue" where
  "put_nowait m q = (if full q then Inl QueueFull else Inr (q\<lparr>items := items q @ [m]\<rparr>))"

datatype conn = Conn

text \<open>
  A \<^verbatim>\<open>Subscription\<close> object (lines 35-68).  \<open>channel\<close> is the attribute that
  \<^verbatim>\<open>Subscription.subscribe\<close> sets; it does not exist before.  \<open>listeners\<close> is a Python
  set: a duplicate-free collection, here with a fixed iteration order.
\<close>

record subscription =
  s_redis :: "conn option"
  name :: string
  channel :: "handle option"
  listeners :: "listener dlist"

text \<open>Where the coroutine \<^verbatim>\<open>broadcast\<close> of a subscription stands.\<close>

datatype task_status =
    Scheduled            \<comment> \<open>handed to \<^verbatim>\<open>loop.call_soon\<close>, not yet run\<close>
  | Waiting              \<comment> \<open>suspended in \<^verbatim>\<open>await self.channel.get()\<close>\<close>
  | Finished             \<comment> \<open>the \<^verbatim>\<open>while\<close> condition was false: the coroutine returned\<close>
  | Failed error         \<comment> \<open>an exception left the coroutine\<close>

datatype log_entry = GotMessage msg | DeliveryFailed | NotSubscribed string

record world =
  redis :: "conn option"                 \<comment> \<open>\<^verbatim>\<open>SubscriptionManager.redis\<close>\<close>
  subscriptions :: "string \<rightharpoonup> addr"      \<comment> \<open>\<^verbatim>\<open>SubscriptionManager.subscriptions\<close>\<close>
  heap :: "subscription list"            \<comment> \<open>the \<^verbatim>\<open>Subscription\<close> objects, by address\<close>
  tasks :: "addr \<rightharpoonup> task_status"         \<comment> \<open>the broadcast task of each subscription\<close>
  queues :: "listener \<Rightarrow> lqueue"          \<comment> \<open>\<^verbatim>\<open>listener.queue\<close>\<close>
  opened :: "string list"                \<comment> \<open>the upstream subscriptions opened at Redis, oldest first\<close>
  logger :: "log_entry list"

text \<open>
  The state of \<^verbatim>\<open>main\<close> after \<^verbatim>\<open>SubscriptionManager()\<close> (lines 73-76): no connection, an
  empty dictionary.  The queues of the listeners are a parameter.
\<close>

definition init :: "(listener \<Rightarrow> lqueue) \<Rightarrow> world" where
  "init qs = \<lparr>redis = None, subscriptions = Map.empty, heap = [],
     tasks = Map.empty, queues = qs, opened = [], logger = []\<rparr>"

text \<open>The unbounded, empty queue of \<^verbatim>\<open>SSEHandler.initialize\<close>.\<close>

definition Queue :: lqueue where
  "Queue = \<lparr>items = [], maxsize = 0\<rparr>"

text \<open>What the message source answers to a request, and what an upstream channel yields.\<close>

datatype reply = Opened | Unavailable

datatype upstream = Message msg | Closed

text \<open>How a stretch of code ended: it returned, it raised, or it is suspended in an
  \<^verbatim>\<open>await\<close> with the local variables it needs to go on.\<close>

datatype pending = Pending listener string addr

datatype status = Returned | Raised error | Suspended pending

subsection \<open>Subscription\<close>

text \<open>Updating the object at an address.  An address that holds no object is left
  alone; the addresses the manager uses all come from \<open>subscribe\<close>.\<close>

definition upd_sub :: "addr \<Rightarrow> (subscription \<Rightarrow> subscription) \<Rightarrow> world \<Rightarrow> world" where
  "upd_sub a f w =
     (if a < length (heap w) then w\<lparr>heap := (heap w)[a := f (heap w ! a)]\<rparr> else w)"

text \<open>\<^verbatim>\<open>Subscription.__init__\<close> (lines 37-40).\<close>

definition new_subscription :: "conn option \<Rightarrow> string \<Rightarrow> subscription" where
  "new_subscription r c = \<lparr>s_redis = r, name = c, channel = None, listeners = Dlist.empty\<rparr>"

text \<open>\<^verbatim>\<open>Subscription.add_listener\<close> (lines 49-50): \<^verbatim>\<open>set.add\<close>.\<close>

definition add_listener :: "addr \<Rightarrow> listener \<Rightarrow> world \<Rightarrow> world" where
  "add_listener a l w = upd_sub a (\<lambda>s. s\<lparr>listeners := Dlist.insert l (listeners s)\<rparr>) w"

text \<open>\<^verbatim>\<open>self.listeners\<close> of the object at an address, and its elements in iteration
  order.\<close>

definition listeners_at :: "world \<Rightarrow> addr \<Rightarrow> listener dlist" where
  "listeners_at w a = (if a < length (heap w) then listeners (heap w ! a) else Dlist.empty)"

definition listeners_of :: "world \<Rightarrow> addr \<Rightarrow> listener list" where
  "listeners_of w a = list_of_dlist (listeners_at w a)"

text \<open>
  The \<^verbatim>\<open>for\<close> loop of \<^verbatim>\<open>broadcast\<close> (lines 61-66) over the listeners still to visit:
  \<^verbatim>\<open>put_nowait\<close> on the listener's queue, and on any exception a warning and
  \<^verbatim>\<open>closed.append(listener)\<close>.  It touches queues and the log only.
\<close>

fun sweep :: "msg \<Rightarrow> listener list \<Rightarrow> listener list \<Rightarrow> world \<Rightarrow> listener list \<times> world" where
  "sweep m [] closed w = (closed, w)"
| "sweep m (l # ls) closed w =
     (case put_nowait m (queues w l) of
        Inr q \<Rightarrow> sweep m ls closed (w\<lparr>queues := (queues w)(l := q)\<rparr>)
      | Inl e \<Rightarrow> sweep m ls (closed @ [l]) (w\<lparr>logger := logger w @ [DeliveryFailed]\<rparr>))"

text \<open>
  Line 68, \<^verbatim>\<open>[self.listeners.remove(listener) for listener in closed]\<close>:
  \<^verbatim>\<open>set.remove\<close> raises \<^verbatim>\<open>KeyError\<close> when the element is missing.
\<close>

fun remove_closed :: "listener list \<Rightarrow> listener dlist \<Rightarrow> error + listener dlist" where
  "remove_closed [] ls = Inr ls"
| "remove_closed (l # cs) ls =
     (if Dlist.member ls l then remove_closed cs (Dlist.remove l ls) else Inl KeyError)"

text \<open>
  One pass through the body of the \<^verbatim>\<open>while\<close> loop after \<^verbatim>\<open>channel.get()\<close> has returned
  \<open>m\<close> (lines 59-68).  \<open>Some e\<close>: the exception \<open>e\<close> left the body.
\<close>

definition body :: "addr \<Rightarrow> msg \<Rightarrow> world \<Rightarrow> error option \<times> world" where
  "body a m w =
     (let w1 = w\<lparr>logger := logger w @ [GotMessage m]\<rparr>;
          (closed, w2) = sweep m (listeners_of w1 a) [] w1
      in if 0 < length closed then
           (case remove_closed closed (listeners_at w2 a) of
              Inl e \<Rightarrow> (Some e, w2)
            | Inr ls \<Rightarrow> (None, upd_sub a (\<lambda>s. s\<lparr>listeners := ls\<rparr>) w2))
         else (None, w2))"

definition set_task :: "addr \<Rightarrow> task_status \<Rightarrow> world \<Rightarrow> world" where
  "set_task a t w = w\<lparr>tasks := (tasks w)(a \<mapsto> t)\<rparr>"

text \<open>
  \<^verbatim>\<open>Subscription.broadcast\<close> (lines 52-68), run from the top of the \<^verbatim>\<open>while\<close> against
  what the upstream channel yields.  When the feed is used up the coroutine stays
  suspended in \<^verbatim>\<open>channel.get()\<close>.
\<close>

fun broadcast :: "addr \<Rightarrow> upstream list \<Rightarrow> world \<Rightarrow> world" where
  "broadcast a [] w =
     (if 0 < length (listeners_of w a) then set_task a Waiting w else set_task a Finished w)"
| "broadcast a (y # ys) w =
     (if 0 < length (listeners_of w a) then
        (case y of
           Closed \<Rightarrow> set_task a (Failed SourceClosed) w
         | Message m \<Rightarrow>
             (case body a m w of
                (Some e, w') \<Rightarrow> set_task a (Failed e) w'
              | (None, w') \<Rightarrow> broadcast a ys w'))
      else set_task a Finished w)"

text \<open>The coroutine resumed in \<^verbatim>\<open>await self.channel.get()\<close> (line 58).\<close>

definition resume :: "addr \<Rightarrow> upstream \<Rightarrow> world \<Rightarrow> world" where
  "resume a y w =
     (case y of
        Closed \<Rightarrow> set_task a (Failed SourceClosed) w
      | Message m \<Rightarrow>
          (case body a m w of
             (Some e, w') \<Rightarrow> set_task a (Failed e) w'
           | (None, w') \<Rightarrow> broadcast a [] w'))"

subsection \<open>SubscriptionManager\<close>

text \<open>\<^verbatim>\<open>SubscriptionManager.connect\<close> (lines 78-79), with the answer of Redis.\<close>

definition connect :: "reply \<Rightarrow> world \<Rightarrow> status \<times> world" where
  "connect r w =
     (case r of
        Opened \<Rightarrow> (Returned, w\<lparr>redis := Some Conn\<rparr>)
      | Unavailable \<Rightarrow> (Raised SourceUnavailable, w))"

text \<open>
  \<^verbatim>\<open>SubscriptionManager.subscribe\<close> (lines 81-90) up to its only \<^verbatim>\<open>await\<close>, the one in
  \<^verbatim>\<open>Subscription.subscribe\<close> (line 43).  With the channel in the dictionary there is no
  \<^verbatim>\<open>await\<close>: the listener is added and the call returns.  Otherwise the object is
  built and \<^verbatim>\<open>self._redis.subscribe\<close> is called, which raises at once when
  \<^verbatim>\<open>self._redis\<close> is \<^verbatim>\<open>None\<close>.
\<close>

definition subscribe_begin :: "listener \<Rightarrow> string \<Rightarrow> world \<Rightarrow> status \<times> world" where
  "subscribe_begin l c w =
     (case subscriptions w c of
        Some a \<Rightarrow> (Returned, add_listener a l w)
      | None \<Rightarrow>
          (let a = length (heap w);
               w1 = w\<lparr>heap := heap w @ [new_subscription (redis w) c]\<rparr>
           in case redis w of
                None \<Rightarrow> (Raised AttributeError, w1)
              | Some r \<Rightarrow> (Suspended (Pending l c a), w1)))"

text \<open>
  The rest of \<^verbatim>\<open>subscribe\<close>, once Redis has answered: line 44 stores the channel, lines
  88-90 enter the object in the dictionary, schedule its \<^verbatim>\<open>broadcast\<close> and add the
  listener.  A failure of Redis leaves the coroutine at line 87.
\<close>

definition subscribe_resume :: "pending \<Rightarrow> reply \<Rightarrow> world \<Rightarrow> status \<times> world" where
  "subscribe_resume p r w =
     (case p of Pending l c a \<Rightarrow>
        (case r of
           Unavailable \<Rightarrow> (Raised SourceUnavailable, w)
         | Opened \<Rightarrow>
             (let h = length (opened w);
                  w1 = w\<lparr>opened := opened w @ [c]\<rparr>;
                  w2 = upd_sub a (\<lambda>s. s\<lparr>channel := Some h\<rparr>) w1;
                  w3 = w2\<lparr>subscriptions := (subscriptions w2)(c \<mapsto> a)\<rparr>;
                  w4 = set_task a Scheduled w3
              in (Returned, add_listener a l w4))))"

text \<open>A call of \<^verbatim>\<open>subscribe\<close> that no other coroutine interleaves with.\<close>

definition subscribe :: "listener \<Rightarrow> string \<Rightarrow> reply \<Rightarrow> world \<Rightarrow> status \<times> world" where
  "subscribe l c r w =
     (case subscribe_begin l c w of
        (Suspended p, w') \<Rightarrow> subscribe_resume p r w'
      | (st, w') \<Rightarrow> (st, w'))"

text \<open>
  \<^verbatim>\<open>SubscriptionManager.unsubscribe\<close> (lines 92-98).  It takes the channel only.
  \<^verbatim>\<open>del sub\<close> unbinds the local name and nothing else.
\<close>

definition unsubscribe :: "string \<Rightarrow> world \<Rightarrow> world" where
  "unsubscribe c w =
     (case subscriptions w c of
        None \<Rightarrow> w\<lparr>logger := logger w @ [NotSubscribed c]\<rparr>
      | Some a \<Rightarrow> w\<lparr>subscriptions := (subscriptions w)(c := None)\<rparr>)"

subsection \<open>Runs\<close>

text \<open>
  What can happen on the event loop, one uninterrupted stretch at a time: a call
  of the manager, the first run of a scheduled broadcast task, or a waiting
  broadcast task woken by its upstream channel.
\<close>

datatype event =
    Connect reply
  | Subscribe listener string reply
  | Unsubscribe string
  | Start addr
  | Upstream addr upstream

fun step :: "event \<Rightarrow> world \<Rightarrow> world" where
  "step (Connect r) w = snd (connect r w)"
| "step (Subscribe l c r) w = snd (subscribe l c r w)"
| "step (Unsubscribe c) w = unsubscribe c w"
| "step (Start a) w = (if tasks w a = Some Scheduled then broadcast a [] w else w)"
| "step (Upstream a y) w = (if tasks w a = Some Waiting then resume a y w else w)"

definition run :: "event list \<Rightarrow> world \<Rightarrow> world" where
  "run es w = fold step es w"

subsection \<open>Example worlds\<close>

text \<open>In all of them the manager is connected and, unless said otherwise, every listener
  has the queue of \<^verbatim>\<open>SSEHandler\<close>.  \<open>w_conn\<close>: nothing is subscribed.\<close>

definition w_conn :: world where
  "w_conn = run [Connect Opened] (init (\<lambda>l. Queue))"

text \<open>Listener 1 is subscribed to \<^verbatim>\<open>c\<close> and the relay of \<^verbatim>\<open>c\<close> waits for a message.\<close>

definition w_one :: world where
  "w_one = run [Connect Opened, Subscribe 1 ''c'' Opened, Start 0] (init (\<lambda>l. Queue))"

text \<open>Listener 1 is subscribed to \<^verbatim>\<open>c\<close> and listener 2 to \<^verbatim>\<open>d\<close>.\<close>

definition w_two :: world where
  "w_two = run [Connect Opened, Subscribe 1 ''c'' Opened, Subscribe 2 ''d'' Opened]
     (init (\<lambda>l. Queue))"

text \<open>Listeners 1 and 2 are subscribed to \<^verbatim>\<open>c\<close>; the queue of listener 1 is bounded and
  full.\<close>

definition w_mixed :: world where
  "w_mixed = run [Connect Opened, Subscribe 1 ''c'' Opened, Subscribe 2 ''c'' Opened, Start 0]
     (init ((\<lambda>l. Queue)(1 := \<lparr>items = [''x''], maxsize = 1\<rparr>)))"

text \<open>The only listener of \<^verbatim>\<open>c\<close> had a full queue when a message came: it was removed and
  the relay loop ended.\<close>

definition w_dead :: world where
  "w_dead = run [Connect Opened, Subscribe 1 ''c'' Opened, Start 0, Upstream 0 (Message ''m'')]
     (init ((\<lambda>l. Queue)(1 := \<lparr>items = [''x''], maxsize = 1\<rparr>)))"

text \<open>The upstream channel of \<^verbatim>\<open>c\<close> failed while the relay was waiting.\<close>

definition w_failed :: world where
  "w_failed = run [Connect Opened, Subscribe 1 ''c'' Opened, Start 0, Upstream 0 Closed]
     (init (\<lambda>l. Queue))"

text \<open>Listener 1 subscribed to \<^verbatim>\<open>c\<close>, the channel was unsubscribed, and listener 2 subscribed
  to \<^verbatim>\<open>c\<close>; both relay tasks have started.\<close>

definition w_again :: world where
  "w_again = run [Connect Opened, Subscribe 1 ''c'' Opened, Start 0, Unsubscribe ''c'',
     Subscribe 2 ''c'' Opened, Start 1] (init (\<lambda>l. Queue))"

text \<open>Two calls of \<open>subscribe\<close> for \<^verbatim>\<open>c\<close>, by listeners 1 and 2, that overlap: the second
  begins while the first is suspended in its \<^verbatim>\<open>await\<close>; then Redis answers both.\<close>

definition w_race :: world where
  "w_race =
     snd (subscribe_resume (Pending 2 ''c'' 1) Opened
       (snd (subscribe_resume (Pending 1 ''c'' 0) Opened
         (snd (subscribe_begin 2 ''c'' (snd (subscribe_begin 1 ''c'' w_conn)))))))"

subsection \<open>Invariants\<close>

text \<open>Every entry of the dictionary leads to an object, and the \<^verbatim>\<open>name\<close> of that object is
  the key of the entry.\<close>

definition key_consistent :: "world \<Rightarrow> bool" where
  "key_consistent w =
     (\<forall>c a. subscriptions w c = Some a \<longrightarrow> a < length (heap w) \<and> name (heap w ! a) = c)"

text \<open>The relay that serves a channel once a listener has subscribed: the one in the
  dictionary, or else the one that the next \<open>subscribe\<close> builds.\<close>

definition relay_of :: "world \<Rightarrow> string \<Rightarrow> addr" where
  "relay_of w c = (case subscriptions w c of None \<Rightarrow> length (heap w) | Some a \<Rightarrow> a)"

text \<open>A channel can be served: it has no entry and the manager is connected, or the task of
  its relay is scheduled or waiting.\<close>

definition relay_live :: "world \<Rightarrow> string \<Rightarrow> bool" where
  "relay_live w c =
     (case subscriptions w c of
        None \<Rightarrow> redis w \<noteq> None
      | Some a \<Rightarrow> a < length (heap w) \<and> (tasks w a = Some Scheduled \<or> tasks w a = Some Waiting))"

text \<open>1 when the channel has no entry in the dictionary, 0 when it has one.\<close>

definition unregistered :: "world \<Rightarrow> string \<Rightarrow> nat" where
  "unregistered w c = (if subscriptions w c = None then 1 else 0)"

section \<open>Properties\<close>

lemmas model_defs = run_def init_def Queue_def subscribe_def subscribe_begin_def
  subscribe_resume_def connect_def unsubscribe_def add_listener_def upd_sub_def
  new_subscription_def set_task_def listeners_of_def listeners_at_def resume_def body_def
  put_nowait_def full_def Let_def Dlist.member_def

lemma w_two_fields:
  "subscriptions w_two ''c'' = Some 0" "subscriptions w_two ''d'' = Some 1"
  "listeners_of w_two 0 = [1]" "listeners_of w_two 1 = [2]"
  by (simp_all add: w_two_def model_defs)

subsection \<open>The sweep over the listeners\<close>

lemma dlist_insert_twice: "Dlist.insert l (Dlist.insert l x) = Dlist.insert l x"
  by (simp add: dlist_eq_iff)

lemma listeners_of_distinct: "distinct (listeners_of w a)"
  by (simp add: listeners_of_def)

text \<open>The sweep only writes queues and the log.\<close>

lemma sweep_frame:
  "heap (snd (sweep m ls cl w)) = heap w"
  "subscriptions (snd (sweep m ls cl w)) = subscriptions w"
  "tasks (snd (sweep m ls cl w)) = tasks w"
  "opened (snd (sweep m ls cl w)) = opened w"
  "redis (snd (sweep m ls cl w)) = redis w"
  by (induction ls arbitrary: cl w; simp split: sum.splits)+

lemma sweep_queue_other:
  "l \<notin> set ls \<Longrightarrow> queues (snd (sweep m ls cl w)) l = queues w l"
  by (induction ls arbitrary: cl w) (auto split: sum.splits)

lemma sweep_queue_visited:
  "distinct ls \<Longrightarrow> l \<in> set ls \<Longrightarrow>
   queues (snd (sweep m ls cl w)) l =
     (if full (queues w l) then queues w l else (queues w l)\<lparr>items := items (queues w l) @ [m]\<rparr>)"
proof (induction ls arbitrary: cl w)
  case Nil
  then show ?case by simp
next
  case (Cons x ls)
  show ?case
  proof (cases "l = x")
    case True
    with Cons.prems have "l \<notin> set ls" by simp
    then show ?thesis
      using True by (simp add: sweep_queue_other put_nowait_def)
  next
    case False
    with Cons.prems have "distinct ls" "l \<in> set ls" by simp_all
    then show ?thesis
      using False Cons.IH by (simp add: put_nowait_def)
  qed
qed

text \<open>The listeners collected in \<open>closed\<close> are those whose queue was full.\<close>

lemma sweep_closed:
  "distinct ls \<Longrightarrow> fst (sweep m ls cl w) = cl @ filter (\<lambda>l. full (queues w l)) ls"
proof (induction ls arbitrary: cl w)
  case Nil
  then show ?case by simp
next
  case (Cons x ls)
  then have d: "distinct ls" and nx: "x \<notin> set ls" by simp_all
  have same: "filter (\<lambda>l. full (if l = x then q else queues w l)) ls = filter (\<lambda>l. full (queues w l)) ls" for q
    using nx by (intro filter_cong) auto
  show ?case
    using Cons.IH [OF d] by (simp add: put_nowait_def same)
qed

text \<open>Removing them never meets a missing element.\<close>

lemma remove_closed_filter:
  "distinct cs \<Longrightarrow> set cs \<subseteq> set (list_of_dlist ls) \<Longrightarrow>
   \<exists>ls'. remove_closed cs ls = Inr ls'
     \<and> list_of_dlist ls' = filter (\<lambda>l. l \<notin> set cs) (list_of_dlist ls)"
proof (induction cs arbitrary: ls)
  case Nil
  then show ?case by simp
next
  case (Cons c cs)
  have mem: "Dlist.member ls c"
    using Cons.prems by (simp add: Dlist.member_def)
  have r: "remove1 c (list_of_dlist ls) = filter (\<lambda>l. l \<noteq> c) (list_of_dlist ls)"
    by (simp add: distinct_remove1_removeAll removeAll_filter_not_eq) metis
  have "set cs \<subseteq> set (list_of_dlist (Dlist.remove c ls))"
    using Cons.prems by (auto simp add: r)
  with Cons.IH [of "Dlist.remove c ls"] Cons.prems
  obtain ls' where "remove_closed cs (Dlist.remove c ls) = Inr ls'"
    and "list_of_dlist ls' = filter (\<lambda>l. l \<notin> set cs) (list_of_dlist (Dlist.remove c ls))"
    by auto
  moreover have "filter (\<lambda>l. l \<notin> set cs) (filter (\<lambda>l. l \<noteq> c) (list_of_dlist ls))
      = filter (\<lambda>l. l \<noteq> c \<and> l \<notin> set cs) (list_of_dlist ls)"
    by (simp add: conj_commute)
  ultimately show ?case
    using mem by (simp add: r)
qed

subsection \<open>One pass of the loop body\<close>

lemma body_cases:
  obtains
    (kept) "filter (\<lambda>l. full (queues w l)) (listeners_of w a) = []"
      "body a m w = (None, snd (sweep m (listeners_of w a) [] (w\<lparr>logger := logger w @ [GotMessage m]\<rparr>)))"
  | (evicted) ls' where "filter (\<lambda>l. full (queues w l)) (listeners_of w a) \<noteq> []"
      "a < length (heap w)"
      "list_of_dlist ls' = filter (\<lambda>l. \<not> full (queues w l)) (listeners_of w a)"
      "body a m w = (None, upd_sub a (\<lambda>s. s\<lparr>listeners := ls'\<rparr>)
         (snd (sweep m (listeners_of w a) [] (w\<lparr>logger := logger w @ [GotMessage m]\<rparr>))))"
proof -
  let ?w1 = "w\<lparr>logger := logger w @ [GotMessage m]\<rparr>"
  let ?ls = "listeners_of w a"
  let ?cl = "filter (\<lambda>l. full (queues w l)) ?ls"
  have l1: "listeners_of ?w1 a = ?ls"
    by (simp add: listeners_of_def listeners_at_def)
  define w2 where "w2 = snd (sweep m ?ls [] ?w1)"
  have sw: "sweep m ?ls [] ?w1 = (?cl, w2)"
    using sweep_closed [OF listeners_of_distinct, of m w a "[]" ?w1]
    by (simp add: prod_eq_iff w2_def)
  show thesis
  proof (cases "?cl = []")
    case True
    then show thesis
      using kept [OF True] by (simp add: body_def Let_def l1 sw)
  next
    case False
    then have ne: "?ls \<noteq> []" by auto
    then have a: "a < length (heap w)"
      by (auto simp add: listeners_of_def listeners_at_def split: if_splits)
    have at: "listeners_at w2 a = listeners_at w a"
      by (simp add: listeners_at_def sweep_frame w2_def)
    have "distinct ?cl" "set ?cl \<subseteq> set (list_of_dlist (listeners_at w a))"
      by (auto simp add: listeners_of_def)
    from remove_closed_filter [OF this]
    obtain ls' where r: "remove_closed ?cl (listeners_at w a) = Inr ls'"
      and l: "list_of_dlist ls' = filter (\<lambda>l. l \<notin> set ?cl) (list_of_dlist (listeners_at w a))"
      by blast
    have "filter (\<lambda>l. l \<notin> set ?cl) ?ls = filter (\<lambda>l. \<not> full (queues w l)) ?ls"
      by (intro filter_cong) auto
    with l have l': "list_of_dlist ls' = filter (\<lambda>l. \<not> full (queues w l)) ?ls"
      by (simp add: listeners_of_def)
    show thesis
      using False evicted [OF False a l'] by (simp add: body_def Let_def l1 sw at r)
  qed
qed

lemma body_no_error: "fst (body a m w) = None"
  by (cases rule: body_cases [of w a m]) simp_all

lemma body_listeners:
  "listeners_of (snd (body a m w)) a = filter (\<lambda>l. \<not> full (queues w l)) (listeners_of w a)"
proof (cases rule: body_cases [of w a m])
  case kept
  have "filter (\<lambda>l. \<not> full (queues w l)) (listeners_of w a) = listeners_of w a"
    using kept(1) by (simp add: filter_empty_conv)
  then show ?thesis
    by (simp add: kept(2) listeners_of_def listeners_at_def sweep_frame)
next
  case (evicted ls')
  then show ?thesis
    by (simp add: listeners_of_def listeners_at_def upd_sub_def sweep_frame)
qed

lemma body_queues:
  "queues (snd (body a m w)) l =
     (if l \<in> set (listeners_of w a) \<and> \<not> full (queues w l)
      then (queues w l)\<lparr>items := items (queues w l) @ [m]\<rparr> else queues w l)"
proof -
  let ?w1 = "w\<lparr>logger := logger w @ [GotMessage m]\<rparr>"
  have q: "queues (snd (body a m w)) l = queues (snd (sweep m (listeners_of w a) [] ?w1)) l"
    by (cases rule: body_cases [of w a m]) (simp_all add: upd_sub_def)
  show ?thesis
  proof (cases "l \<in> set (listeners_of w a)")
    case True
    then show ?thesis
      using sweep_queue_visited [OF listeners_of_distinct True, of m "[]" ?w1]
      by (simp add: q)
  next
    case False
    then show ?thesis by (simp add: q sweep_queue_other)
  qed
qed

lemma body_frame:
  "subscriptions (snd (body a m w)) = subscriptions w"
  "tasks (snd (body a m w)) = tasks w"
  "opened (snd (body a m w)) = opened w"
  "redis (snd (body a m w)) = redis w"
  "map name (heap (snd (body a m w))) = map name (heap w)"
  by (cases rule: body_cases [of w a m]; simp add: upd_sub_def sweep_frame map_update list_update_same_conv)+

lemma body_split:
  "(case body a m w of (None, w') \<Rightarrow> f w' | (Some e, w') \<Rightarrow> g e w') = f (snd (body a m w))"
  using body_no_error [of a m w] by (cases "body a m w") simp

subsection \<open>The relay loop\<close>

lemma set_task_frame:
  "subscriptions (set_task a t w) = subscriptions w"
  "opened (set_task a t w) = opened w"
  "redis (set_task a t w) = redis w"
  "heap (set_task a t w) = heap w"
  "queues (set_task a t w) = queues w"
  "listeners_of (set_task a t w) b = listeners_of w b"
  "tasks (set_task a t w) a = Some t"
  by (simp_all add: set_task_def listeners_of_def listeners_at_def)

lemma broadcast_frame:
  "subscriptions (broadcast a ys w) = subscriptions w"
  "opened (broadcast a ys w) = opened w"
  "redis (broadcast a ys w) = redis w"
  "map name (heap (broadcast a ys w)) = map name (heap w)"
proof (induction ys arbitrary: w)
  case Nil
  { case 1 show ?case by (simp add: set_task_frame) }
  { case 2 show ?case by (simp add: set_task_frame) }
  { case 3 show ?case by (simp add: set_task_frame) }
  { case 4 show ?case by (simp add: set_task_frame) }
next
  case (Cons y ys)
  { case 1 show ?case
      by (cases y) (simp_all add: set_task_frame body_split Cons.IH body_frame) }
  { case 2 show ?case
      by (cases y) (simp_all add: set_task_frame body_split Cons.IH body_frame) }
  { case 3 show ?case
      by (cases y) (simp_all add: set_task_frame body_split Cons.IH body_frame) }
  { case 4 show ?case
      by (cases y) (simp_all add: set_task_frame body_split Cons.IH body_frame) }
qed

lemma broadcast_never_fails:
  "tasks (broadcast a (map Message ms) w) a = Some Waiting
   \<or> tasks (broadcast a (map Message ms) w) a = Some Finished"
proof (induction ms arbitrary: w)
  case Nil
  then show ?case by (simp add: set_task_frame)
next
  case (Cons m ms)
  show ?case
    using Cons.IH [of "snd (body a m w)"] by (simp add: set_task_frame body_split)
qed

lemma resume_frame:
  "subscriptions (resume a y w) = subscriptions w"
  "opened (resume a y w) = opened w"
  "redis (resume a y w) = redis w"
  "map name (heap (resume a y w)) = map name (heap w)"
  by (cases y; simp add: resume_def set_task_frame body_split broadcast_frame body_frame)+

subsection \<open>subscribe\<close>

lemma subscribe_existing:
  "subscriptions w c = Some a \<Longrightarrow> subscribe l c r w = (Returned, add_listener a l w)"
  by (simp add: subscribe_def subscribe_begin_def)

lemma subscribe_new_opened:
  assumes "subscriptions w c = None" and "redis w \<noteq> None"
  shows "subscribe l c Opened w =
    (Returned, w\<lparr>heap := heap w @ [\<lparr>s_redis = redis w, name = c,
         channel = Some (length (opened w)), listeners = Dlist.insert l Dlist.empty\<rparr>],
       subscriptions := (subscriptions w)(c \<mapsto> length (heap w)),
       tasks := (tasks w)(length (heap w) \<mapsto> Scheduled),
       opened := opened w @ [c]\<rparr>)"
  using assms
  by (auto simp add: subscribe_def subscribe_begin_def subscribe_resume_def Let_def upd_sub_def
      add_listener_def set_task_def new_subscription_def)

lemma subscribe_new_failed:
  assumes "subscriptions w c = None" and "redis w = None \<or> r = Unavailable"
  shows "subscribe l c r w =
    (Raised (if redis w = None then AttributeError else SourceUnavailable),
     w\<lparr>heap := heap w @ [new_subscription (redis w) c]\<rparr>)"
  using assms
  by (auto simp add: subscribe_def subscribe_begin_def subscribe_resume_def Let_def
      split: option.splits)

lemma add_listener_twice: "add_listener a l (add_listener a l w) = add_listener a l w"
  by (simp add: add_listener_def upd_sub_def dlist_insert_twice)

lemma add_listener_frame:
  "subscriptions (add_listener a l w) = subscriptions w"
  "opened (add_listener a l w) = opened w"
  "redis (add_listener a l w) = redis w"
  "tasks (add_listener a l w) = tasks w"
  "queues (add_listener a l w) = queues w"
  "length (heap (add_listener a l w)) = length (heap w)"
  "map name (heap (add_listener a l w)) = map name (heap w)"
  by (simp_all add: add_listener_def upd_sub_def map_update list_update_same_conv)

lemma add_listener_listeners:
  "a < length (heap w) \<Longrightarrow> set (listeners_of (add_listener a l w) a) = insert l (set (listeners_of w a))"
  by (simp add: add_listener_def upd_sub_def listeners_of_def listeners_at_def)

subsection \<open>Runs\<close>

lemma run_Nil: "run [] w = w"
  by (simp add: run_def)

lemma run_Cons: "run (e # es) w = run es (step e w)"
  by (simp add: run_def)

lemma run_append: "run (es @ fs) w = run fs (run es w)"
  by (simp add: run_def)

lemma subscribe_more:
  assumes "subscriptions w c = Some a" and "a < length (heap w)"
  shows "subscriptions (run (map (\<lambda>l. Subscribe l c Opened) ls) w) = subscriptions w
    \<and> length (heap (run (map (\<lambda>l. Subscribe l c Opened) ls) w)) = length (heap w)
    \<and> tasks (run (map (\<lambda>l. Subscribe l c Opened) ls) w) = tasks w
    \<and> queues (run (map (\<lambda>l. Subscribe l c Opened) ls) w) = queues w
    \<and> set (listeners_of (run (map (\<lambda>l. Subscribe l c Opened) ls) w) a) = set ls \<union> set (listeners_of w a)"
  using assms
proof (induction ls arbitrary: w)
  case Nil
  then show ?case by (simp add: run_Nil)
next
  case (Cons l ls)
  let ?w = "add_listener a l w"
  have s: "run (map (\<lambda>l. Subscribe l c Opened) (l # ls)) w = run (map (\<lambda>l. Subscribe l c Opened) ls) ?w"
    using Cons.prems by (simp add: run_Cons subscribe_existing)
  have "subscriptions ?w c = Some a" "a < length (heap ?w)"
    using Cons.prems by (simp_all add: add_listener_frame)
  from Cons.IH [OF this] show ?case
    using Cons.prems(2) by (simp only: s) (simp add: add_listener_frame add_listener_listeners)
qed

lemma subscribe_first:
  assumes "subscriptions w c = None" and "redis w \<noteq> None"
  shows "subscriptions (step (Subscribe l c Opened) w) c = Some (length (heap w))
    \<and> length (heap w) < length (heap (step (Subscribe l c Opened) w))
    \<and> tasks (step (Subscribe l c Opened) w) (length (heap w)) = Some Scheduled
    \<and> queues (step (Subscribe l c Opened) w) = queues w
    \<and> listeners_of (step (Subscribe l c Opened) w) (length (heap w)) = [l]"
  by (simp add: subscribe_new_opened [OF assms] listeners_of_def listeners_at_def)

lemma subscribe_all:
  assumes "subscriptions w c = None" and "redis w \<noteq> None" and "ls \<noteq> []"
  shows "subscriptions (run (map (\<lambda>l. Subscribe l c Opened) ls) w) c = Some (length (heap w))
    \<and> length (heap w) < length (heap (run (map (\<lambda>l. Subscribe l c Opened) ls) w))
    \<and> tasks (run (map (\<lambda>l. Subscribe l c Opened) ls) w) (length (heap w)) = Some Scheduled
    \<and> queues (run (map (\<lambda>l. Subscribe l c Opened) ls) w) = queues w
    \<and> set (listeners_of (run (map (\<lambda>l. Subscribe l c Opened) ls) w) (length (heap w))) = set ls"
proof (cases ls)
  case Nil
  with assms(3) show ?thesis by simp
next
  case (Cons l ls')
  let ?w = "step (Subscribe l c Opened) w"
  note f = subscribe_first [OF assms(1,2), of l]
  from f have "subscriptions ?w c = Some (length (heap w))" "length (heap w) < length (heap ?w)"
    by simp_all
  from subscribe_more [OF this, of ls'] f show ?thesis
    by (simp add: Cons run_Cons)
qed

text \<open>A waiting relay fed messages: listeners with unbounded queues stay and get them all.\<close>

lemma relay_feed_some:
  assumes "tasks w a = Some Waiting" and "ls \<noteq> []" and "set ls \<subseteq> set (listeners_of w a)"
    and "\<forall>l \<in> set ls. maxsize (queues w l) = 0"
  shows "set ls \<subseteq> set (listeners_of (run (map (\<lambda>m. Upstream a (Message m)) ms) w) a)
    \<and> tasks (run (map (\<lambda>m. Upstream a (Message m)) ms) w) a = Some Waiting
    \<and> (\<forall>l \<in> set ls.
          queues (run (map (\<lambda>m. Upstream a (Message m)) ms) w) l
            = (queues w l)\<lparr>items := items (queues w l) @ ms\<rparr>)"
  using assms
proof (induction ms arbitrary: w)
  case Nil
  then show ?case by (simp add: run_Nil)
next
  case (Cons m ms)
  let ?b = "snd (body a m w)"
  define v where "v = set_task a Waiting ?b"
  have nf: "\<forall>l \<in> set ls. \<not> full (queues w l)"
    using Cons.prems(4) by (simp add: full_def)
  have keep: "set ls \<subseteq> set (listeners_of ?b a)"
    using nf Cons.prems(3) by (auto simp add: body_listeners)
  with Cons.prems(2) have ne: "listeners_of ?b a \<noteq> []"
    by (cases ls) auto
  have s: "run (map (\<lambda>m. Upstream a (Message m)) (m # ms)) w = run (map (\<lambda>m. Upstream a (Message m)) ms) v"
    using Cons.prems(1) ne by (simp add: run_Cons resume_def body_split v_def)
  have q: "\<forall>l \<in> set ls. queues v l = (queues w l)\<lparr>items := items (queues w l) @ [m]\<rparr>"
    using nf Cons.prems(3) by (auto simp add: v_def set_task_frame body_queues)
  have "tasks v a = Some Waiting" "ls \<noteq> []" "set ls \<subseteq> set (listeners_of v a)"
    "\<forall>l \<in> set ls. maxsize (queues v l) = 0"
    using Cons.prems(2,4) q keep by (simp_all add: v_def set_task_frame)
  from Cons.IH [OF this] show ?case
    using q by (simp only: s) simp
qed

text \<open>Subscribing to a channel that can be served.\<close>

lemma subscribe_live:
  assumes "relay_live w c" and "ls \<noteq> []"
  shows "subscriptions (run (map (\<lambda>l. Subscribe l c Opened) ls) w) c = Some (relay_of w c)
    \<and> relay_of w c < length (heap (run (map (\<lambda>l. Subscribe l c Opened) ls) w))
    \<and> (tasks (run (map (\<lambda>l. Subscribe l c Opened) ls) w) (relay_of w c) = Some Scheduled
       \<or> tasks (run (map (\<lambda>l. Subscribe l c Opened) ls) w) (relay_of w c) = Some Waiting)
    \<and> queues (run (map (\<lambda>l. Subscribe l c Opened) ls) w) = queues w
    \<and> set ls \<subseteq> set (listeners_of (run (map (\<lambda>l. Subscribe l c Opened) ls) w) (relay_of w c))"
proof (cases "subscriptions w c")
  case None
  with assms(1) have r: "redis w \<noteq> None" by (simp add: relay_live_def)
  from subscribe_all [OF None r assms(2)] show ?thesis
    by (simp add: relay_of_def None)
next
  case (Some a)
  with assms(1) have a: "a < length (heap w)" "tasks w a = Some Scheduled \<or> tasks w a = Some Waiting"
    by (simp_all add: relay_live_def)
  from subscribe_more [OF Some a(1), of ls] a show ?thesis
    by (simp add: relay_of_def Some)
qed

subsection \<open>The dictionary and the objects\<close>

lemma key_consistent_cong:
  assumes "subscriptions v = subscriptions w" and "map name (heap v) = map name (heap w)"
  shows "key_consistent v = key_consistent w"
proof -
  have l: "length (heap v) = length (heap w)"
    using assms(2) by (metis length_map)
  have "(a < length (heap v) \<and> name (heap v ! a) = c) = (a < length (heap w) \<and> name (heap w ! a) = c)"
    for a c
    using assms(2) l by (metis nth_map)
  then show ?thesis
    by (simp add: key_consistent_def assms(1))
qed

lemma key_consistent_init: "key_consistent (init qs)"
  by (simp add: key_consistent_def init_def)

lemma key_consistentD:
  "key_consistent w \<Longrightarrow> subscriptions w c = Some a \<Longrightarrow> a < length (heap w) \<and> name (heap w ! a) = c"
  by (simp add: key_consistent_def)

lemma key_consistent_step:
  assumes "key_consistent w"
  shows "key_consistent (step e w)"
proof (cases e)
  case (Connect r)
  have "key_consistent (snd (connect r w)) = key_consistent w"
    by (intro key_consistent_cong; cases r; simp add: connect_def)
  with assms show ?thesis by (simp add: Connect)
next
  case (Subscribe l c r)
  show ?thesis
  proof (cases "subscriptions w c")
    case (Some a)
    have "key_consistent (add_listener a l w) = key_consistent w"
      by (intro key_consistent_cong) (simp_all add: add_listener_frame)
    with assms show ?thesis
      by (simp add: Subscribe subscribe_existing [OF Some])
  next
    case None
    show ?thesis
    proof (cases "redis w = None \<or> r = Unavailable")
      case True
      have "d < length (heap w @ [x]) \<and> name ((heap w @ [x]) ! d) = k"
        if "subscriptions w k = Some d" for k d x
        using key_consistentD [OF assms that] by (simp add: nth_append)
      then show ?thesis
        by (simp add: Subscribe subscribe_new_failed [OF None True] key_consistent_def)
    next
      case False
      then have r: "redis w \<noteq> None" "r = Opened" by (cases r; simp)+
      have "d < length (heap w @ [x]) \<and> name ((heap w @ [x]) ! d) = k"
        if "subscriptions w k = Some d" for k d x
        using key_consistentD [OF assms that] by (simp add: nth_append)
      then show ?thesis
        by (simp add: Subscribe r(2) subscribe_new_opened [OF None r(1)] key_consistent_def)
    qed
  qed
next
  case (Unsubscribe c)
  have "key_consistent (w\<lparr>logger := x\<rparr>) = key_consistent w" for x
    by (intro key_consistent_cong) simp_all
  moreover have "key_consistent (w\<lparr>subscriptions := (subscriptions w)(c := None)\<rparr>)"
    using key_consistentD [OF assms] by (simp add: key_consistent_def)
  ultimately show ?thesis
    using assms by (simp add: Unsubscribe unsubscribe_def split: option.splits)
next
  case (Start a)
  have "key_consistent (broadcast a [] w) = key_consistent w"
    by (intro key_consistent_cong) (simp_all only: broadcast_frame)
  with assms show ?thesis by (simp add: Start)
next
  case (Upstream a y)
  have "key_consistent (resume a y w) = key_consistent w"
    by (intro key_consistent_cong) (simp_all only: resume_frame)
  with assms show ?thesis by (simp add: Upstream)
qed

lemma key_consistent_run: "key_consistent w \<Longrightarrow> key_consistent (run es w)"
  by (induction es arbitrary: w) (simp_all add: run_Nil run_Cons key_consistent_step del: step.simps)

subsection \<open>Upstream subscriptions\<close>

text \<open>One event opens at most one upstream subscription for a channel, and only when the
  channel had no entry; only \<open>unsubscribe\<close> takes an entry away.\<close>

lemma opened_step:
  "count_list (opened (step e w)) c + unregistered (step e w) c
     \<le> count_list (opened w) c + unregistered w c + (if e = Unsubscribe c then 1 else 0)"
proof (cases e)
  case (Connect r)
  then show ?thesis by (cases r) (simp_all add: connect_def unregistered_def)
next
  case (Subscribe l d r)
  show ?thesis
  proof (cases "subscriptions w d")
    case (Some a)
    then show ?thesis
      by (simp add: Subscribe subscribe_existing add_listener_frame unregistered_def)
  next
    case None
    show ?thesis
    proof (cases "redis w = None \<or> r = Unavailable")
      case True
      show ?thesis
        by (simp add: Subscribe subscribe_new_failed [OF None True] unregistered_def)
    next
      case False
      then have r: "redis w \<noteq> None" "r = Opened" by (cases r; simp)+
      show ?thesis
        using None by (simp add: Subscribe r(2) subscribe_new_opened [OF None r(1)] unregistered_def)
    qed
  qed
next
  case (Unsubscribe d)
  then show ?thesis
    by (simp add: unsubscribe_def unregistered_def split: option.splits)
next
  case (Start a)
  then show ?thesis by (simp add: broadcast_frame unregistered_def del: broadcast.simps)
next
  case (Upstream a y)
  then show ?thesis by (simp add: resume_frame unregistered_def)
qed

lemma opened_run:
  "count_list (opened (run es w)) c + unregistered (run es w) c
     \<le> count_list (opened w) c + unregistered w c + count_list es (Unsubscribe c)"
proof (induction es arbitrary: w)
  case Nil
  then show ?case by (simp add: run_Nil)
next
  case (Cons e es)
  have n: "count_list (e # es) (Unsubscribe c)
      = count_list es (Unsubscribe c) + (if e = Unsubscribe c then 1 else 0)"
    by simp
  from Cons.IH [of "step e w"] opened_step [of e w c] show ?case
    unfolding run_Cons n by linarith
qed

text \<open>
  The test of the dictionary and the entry into it are separated by the \<^verbatim>\<open>await\<close> of
  \<open>subscribe\<close>.  Two calls for the same new channel that overlap there both find no
  entry: each builds an object and opens an upstream subscription, the entry of the
  second call replaces that of the first, and both relay tasks are scheduled.
\<close>

lemma overlapping_subscribes:
  "subscribe_begin 1 ''c'' w_conn = (Suspended (Pending 1 ''c'' 0), snd (subscribe_begin 1 ''c'' w_conn))"
  "subscribe_begin 2 ''c'' (snd (subscribe_begin 1 ''c'' w_conn))
     = (Suspended (Pending 2 ''c'' 1), snd (subscribe_begin 2 ''c'' (snd (subscribe_begin 1 ''c'' w_conn))))"
  "opened w_race = [''c'', ''c'']"
  "subscriptions w_race ''c'' = Some 1"
  "listeners_of w_race 0 = [1]" "listeners_of w_race 1 = [2]"
  "tasks w_race 0 = Some Scheduled" "tasks w_race 1 = Some Scheduled"
  by (simp_all add: w_race_def w_conn_def model_defs)

section \<open>The claims\<close>

subsection \<open>unsubscribe\<close>

text \<open>
  C1, as the code has it.  \<open>unsubscribe\<close> takes a channel and no listener.  For a channel
  \<open>c\<close> that is in the dictionary it removes the entry of \<open>c\<close>, whatever the listener set
  of the relay is, and does nothing else: no listener is removed from the relay, its task
  and the upstream subscriptions opened so far are as before.  A later \<open>subscribe\<close> for
  \<open>c\<close> then builds a new object at a new address, with the subscriber as its only
  listener, opens an upstream subscription and schedules a new relay task; the old object
  keeps its listeners.
\<close>

theorem unsubscribe_drops_entry:
  assumes "subscriptions w c = Some a" and "a < length (heap w)" and "redis w \<noteq> None"
  shows "subscriptions (unsubscribe c w) c = None
    \<and> listeners_at (unsubscribe c w) a = listeners_at w a
    \<and> tasks (unsubscribe c w) = tasks w
    \<and> opened (unsubscribe c w) = opened w
    \<and> fst (subscribe l c Opened (unsubscribe c w)) = Returned
    \<and> subscriptions (snd (subscribe l c Opened (unsubscribe c w))) c = Some (length (heap w))
    \<and> length (heap w) \<noteq> a
    \<and> listeners_of (snd (subscribe l c Opened (unsubscribe c w))) (length (heap w)) = [l]
    \<and> tasks (snd (subscribe l c Opened (unsubscribe c w))) (length (heap w)) = Some Scheduled
    \<and> opened (snd (subscribe l c Opened (unsubscribe c w))) = opened w @ [c]
    \<and> listeners_at (snd (subscribe l c Opened (unsubscribe c w))) a = listeners_at w a"
proof -
  let ?u = "unsubscribe c w"
  have u: "?u = w\<lparr>subscriptions := (subscriptions w)(c := None)\<rparr>"
    using assms(1) by (simp add: unsubscribe_def)
  have n: "subscriptions ?u c = None" and r: "redis ?u \<noteq> None"
    using assms(3) by (simp_all add: u)
  show ?thesis
    using assms(2) by (simp add: subscribe_new_opened [OF n r] listeners_of_def listeners_at_def
        nth_append) (simp add: u)
qed

theorem unsubscribe_drops_entry_witness:
  "subscriptions w_one ''c'' = Some 0 \<and> 0 < length (heap w_one) \<and> redis w_one \<noteq> None
   \<and> subscriptions (unsubscribe ''c'' w_one) ''c'' = None
   \<and> subscriptions (snd (subscribe 2 ''c'' Opened (unsubscribe ''c'' w_one))) ''c'' = Some 1
   \<and> listeners_of (snd (subscribe 2 ''c'' Opened (unsubscribe ''c'' w_one))) 1 = [2]
   \<and> opened (snd (subscribe 2 ''c'' Opened (unsubscribe ''c'' w_one))) = [''c'', ''c'']"
proof -
  have h: "subscriptions w_one ''c'' = Some 0" "0 < length (heap w_one)" "redis w_one \<noteq> None"
    and o: "opened w_one = [''c'']" "length (heap w_one) = 1"
    by (simp_all add: w_one_def model_defs)
  show ?thesis using h unsubscribe_drops_entry [OF h, of 2] by (simp add: o)
qed

text \<open>
  C1 as stated fails.  Listener 1 is the only listener of \<^verbatim>\<open>c\<close>.  After \<open>unsubscribe\<close> it is
  still in the listener set of the relay, the relay task still waits for its upstream
  channel, the upstream subscription is still open, and the next message of that channel
  still reaches the queue of listener 1.
\<close>

theorem unsubscribe_leaves_relay_counterexample:
  "subscriptions w_one ''c'' = Some 0 \<and> listeners_of w_one 0 = [1]
   \<and> listeners_of (unsubscribe ''c'' w_one) 0 = [1]
   \<and> tasks (unsubscribe ''c'' w_one) 0 = Some Waiting
   \<and> opened (unsubscribe ''c'' w_one) = [''c'']
   \<and> items (queues (step (Upstream 0 (Message ''m'')) (unsubscribe ''c'' w_one)) 1) = [''m'']"
  by (simp add: w_one_def model_defs)

text \<open>
  C8.  For a channel with no entry in the dictionary, \<open>unsubscribe\<close> returns normally
  (it is a total function with no error result): it appends the warning about the
  unknown channel to the log and changes nothing else, so the dictionary is as before.
\<close>

theorem unsubscribe_unknown_channel:
  assumes "subscriptions w c = None"
  shows "unsubscribe c w = w\<lparr>logger := logger w @ [NotSubscribed c]\<rparr>
    \<and> subscriptions (unsubscribe c w) = subscriptions w"
  using assms by (simp add: unsubscribe_def)

theorem unsubscribe_unknown_channel_witness:
  "subscriptions (init (\<lambda>l. Queue)) ''x'' = None
   \<and> unsubscribe ''x'' (init (\<lambda>l. Queue)) = (init (\<lambda>l. Queue))\<lparr>logger := [NotSubscribed ''x'']\<rparr>
   \<and> subscriptions (unsubscribe ''x'' (init (\<lambda>l. Queue))) = Map.empty"
proof -
  have h: "subscriptions (init (\<lambda>l. Queue)) ''x'' = None" by (simp add: init_def)
  show ?thesis using h unsubscribe_unknown_channel [OF h] by (simp add: init_def)
qed

text \<open>
  C9.  For a channel \<open>c\<close> that is in the dictionary, at address \<open>a\<close>, \<open>unsubscribe\<close>
  changes the entry of \<open>c\<close> only: the entry of every other channel is as before, and
  so is the store of objects, hence the listener set of the object that was removed.
  Tasks, queues, upstream subscriptions and log are untouched as well.
\<close>

theorem unsubscribe_frame:
  assumes "subscriptions w c = Some a"
  shows "(\<forall>d. d \<noteq> c \<longrightarrow> subscriptions (unsubscribe c w) d = subscriptions w d)
    \<and> heap (unsubscribe c w) = heap w
    \<and> listeners_at (unsubscribe c w) a = listeners_at w a
    \<and> tasks (unsubscribe c w) = tasks w
    \<and> queues (unsubscribe c w) = queues w
    \<and> opened (unsubscribe c w) = opened w
    \<and> logger (unsubscribe c w) = logger w
    \<and> redis (unsubscribe c w) = redis w"
  using assms by (simp add: unsubscribe_def listeners_at_def)

theorem unsubscribe_frame_witness:
  "subscriptions w_two ''c'' = Some 0
   \<and> subscriptions (unsubscribe ''c'' w_two) ''d'' = Some 1
   \<and> heap (unsubscribe ''c'' w_two) = heap w_two
   \<and> listeners_of (unsubscribe ''c'' w_two) 0 = [1]"
proof -
  have h: "subscriptions w_two ''c'' = Some 0" by (simp add: w_two_fields)
  show ?thesis using h unsubscribe_frame [OF h] w_two_fields by (simp add: listeners_of_def)
qed

subsection \<open>subscribe\<close>

text \<open>
  C4.  When the channel has no entry and opening the upstream subscription fails (Redis
  raises, or the manager has no connection at all), \<open>subscribe\<close> raises that failure to
  its caller.  The dictionary is unchanged, so the channel still has no entry; no task is
  created and no upstream subscription is recorded; the listener sets at every address
  are as before, the object built for the call holding no listener.
\<close>

theorem subscribe_failure_leaves_registry:
  assumes "subscriptions w c = None" and "redis w = None \<or> r = Unavailable"
  shows "fst (subscribe l c r w) = Raised (if redis w = None then AttributeError else SourceUnavailable)
    \<and> subscriptions (snd (subscribe l c r w)) = subscriptions w
    \<and> (\<forall>a. listeners_of (snd (subscribe l c r w)) a = listeners_of w a)
    \<and> tasks (snd (subscribe l c r w)) = tasks w
    \<and> opened (snd (subscribe l c r w)) = opened w
    \<and> queues (snd (subscribe l c r w)) = queues w"
  by (simp add: subscribe_new_failed [OF assms] listeners_of_def listeners_at_def nth_append
      new_subscription_def)

theorem subscribe_failure_leaves_registry_witness:
  "subscriptions w_conn ''x'' = None \<and> redis w_conn = Some Conn
   \<and> fst (subscribe 1 ''x'' Unavailable w_conn) = Raised SourceUnavailable
   \<and> subscriptions (snd (subscribe 1 ''x'' Unavailable w_conn)) = Map.empty
   \<and> listeners_of (snd (subscribe 1 ''x'' Unavailable w_conn)) 0 = []"
proof -
  have h: "subscriptions w_conn ''x'' = None" "redis w_conn = None \<or> Unavailable = Unavailable"
    and o: "redis w_conn = Some Conn" "subscriptions w_conn = Map.empty" "listeners_of w_conn 0 = []"
    by (simp_all add: w_conn_def model_defs)
  show ?thesis using h(1) subscribe_failure_leaves_registry [OF h, of 1] by (simp add: o)
qed

text \<open>
  C2, as the code has it.  A call of \<open>subscribe\<close> that finds an entry for \<open>c\<close> returns
  without reaching the \<^verbatim>\<open>await\<close>: it adds the listener to the relay of that entry, opens no
  upstream subscription and leaves dictionary, tasks and store size as they are (the
  entry leads to an object at address \<open>a\<close>, as every entry does in a state reached from
  the initial one, by \<open>key_consistent_run\<close>).  A call
  reaches the \<^verbatim>\<open>await\<close> only when it found no entry, and opens nothing before it; run to
  its end from a state with no entry, it opens one upstream subscription exactly when
  the manager is connected and Redis accepts.  Nothing in the code releases an upstream
  subscription, and \<open>unsubscribe\<close> takes the entry away.  So over a run of events from the
  initial state in which every call of \<open>subscribe\<close> runs to its end before the next event,
  the upstream subscriptions opened for \<open>c\<close> are at most one more than the calls of
  \<open>unsubscribe\<close> for \<open>c\<close>: at most one when \<open>c\<close> is never unsubscribed.
\<close>

theorem upstream_opened_without_entry:
  "(subscriptions w c = Some a \<longrightarrow> a < length (heap w) \<longrightarrow>
      fst (subscribe_begin l c w) = Returned
      \<and> fst (subscribe l c r w) = Returned
      \<and> set (listeners_of (snd (subscribe l c r w)) a) = insert l (set (listeners_of w a))
      \<and> opened (snd (subscribe l c r w)) = opened w
      \<and> subscriptions (snd (subscribe l c r w)) = subscriptions w
      \<and> tasks (snd (subscribe l c r w)) = tasks w
      \<and> length (heap (snd (subscribe l c r w))) = length (heap w))
   \<and> (fst (subscribe_begin l c w) = Suspended p \<longrightarrow> subscriptions w c = None)
   \<and> opened (snd (subscribe_begin l c w)) = opened w
   \<and> (subscriptions w c = None \<longrightarrow>
      opened (snd (subscribe l c r w))
        = (if redis w \<noteq> None \<and> r = Opened then opened w @ [c] else opened w))
   \<and> count_list (opened (run es (init qs))) c \<le> 1 + count_list es (Unsubscribe c)
   \<and> (Unsubscribe c \<notin> set es \<longrightarrow> count_list (opened (run es (init qs))) c \<le> 1)"
proof -
  have a: "fst (subscribe_begin l c w) = Returned
      \<and> fst (subscribe l c r w) = Returned
      \<and> set (listeners_of (snd (subscribe l c r w)) a) = insert l (set (listeners_of w a))
      \<and> opened (snd (subscribe l c r w)) = opened w
      \<and> subscriptions (snd (subscribe l c r w)) = subscriptions w
      \<and> tasks (snd (subscribe l c r w)) = tasks w
      \<and> length (heap (snd (subscribe l c r w))) = length (heap w)"
    if "subscriptions w c = Some a" "a < length (heap w)"
    using that
    by (simp add: subscribe_existing add_listener_frame add_listener_listeners subscribe_begin_def)
  have s: "subscriptions w c = None" if "fst (subscribe_begin l c w) = Suspended p"
    using that by (cases "subscriptions w c") (simp_all add: subscribe_begin_def)
  have o: "opened (snd (subscribe_begin l c w)) = opened w"
    by (cases "subscriptions w c"; cases "redis w")
      (simp_all add: subscribe_begin_def add_listener_frame Let_def)
  have b: "opened (snd (subscribe l c r w))
        = (if redis w \<noteq> None \<and> r = Opened then opened w @ [c] else opened w)"
    if n: "subscriptions w c = None"
  proof (cases "redis w = None \<or> r = Unavailable")
    case True
    then show ?thesis by (auto simp add: subscribe_new_failed [OF n True])
  next
    case False
    then have r: "redis w \<noteq> None" "r = Opened" by (cases r; simp)+
    show ?thesis by (simp add: r subscribe_new_opened [OF n r(1)])
  qed
  have c: "count_list (opened (run es (init qs))) c \<le> 1 + count_list es (Unsubscribe c)"
    using opened_run [of es "init qs" c] by (simp add: init_def unregistered_def split: if_splits)
  have d: "count_list (opened (run es (init qs))) c \<le> 1" if "Unsubscribe c \<notin> set es"
    using c that by (simp add: count_list_0_iff)
  from a s o b c d show ?thesis by blast
qed

theorem upstream_opened_without_entry_witness:
  "subscriptions w_one ''c'' = Some 0 \<and> 0 < length (heap w_one)
   \<and> fst (subscribe_begin 2 ''c'' w_one) = Returned
   \<and> fst (subscribe 2 ''c'' Opened w_one) = Returned
   \<and> set (listeners_of (snd (subscribe 2 ''c'' Opened w_one)) 0) = {1, 2}
   \<and> opened (snd (subscribe 2 ''c'' Opened w_one)) = opened w_one
   \<and> fst (subscribe_begin 2 ''c'' w_conn) = Suspended (Pending 2 ''c'' 0)
   \<and> subscriptions w_conn ''c'' = None
   \<and> opened (snd (subscribe 2 ''c'' Opened w_conn)) = [''c'']
   \<and> Unsubscribe ''c'' \<notin> set [Connect Opened, Subscribe 2 ''c'' Opened, Subscribe 3 ''c'' Opened]
   \<and> count_list (opened (run [Connect Opened, Subscribe 2 ''c'' Opened, Subscribe 3 ''c'' Opened]
        (init (\<lambda>l. Queue)))) ''c'' \<le> 1"
proof -
  have h: "subscriptions w_one ''c'' = Some 0" "0 < length (heap w_one)"
    "fst (subscribe_begin 2 ''c'' w_conn) = Suspended (Pending 2 ''c'' 0)"
    "redis w_conn \<noteq> None" "opened w_conn = []" "listeners_of w_one 0 = [1]"
    "Unsubscribe ''c'' \<notin> set [Connect Opened, Subscribe 2 ''c'' Opened, Subscribe 3 ''c'' Opened]"
    by (simp_all add: w_one_def w_conn_def model_defs)
  show ?thesis
    using h
      upstream_opened_without_entry [of w_one "''c''" 0 2 Opened "Pending 2 ''c'' 0"
        "[Connect Opened, Subscribe 2 ''c'' Opened, Subscribe 3 ''c'' Opened]" "\<lambda>l. Queue"]
      upstream_opened_without_entry [of w_conn "''c''" 0 2 Opened "Pending 2 ''c'' 0" "[]" "\<lambda>l. Queue"]
    by auto
qed

text \<open>
  C2 as stated fails.  After subscribe, unsubscribe and subscribe again for \<^verbatim>\<open>c\<close>, two
  upstream subscriptions of \<^verbatim>\<open>c\<close> are open at once, handles 0 and 1, each held by a relay
  whose task waits on it and which has a listener.  Two calls of \<open>subscribe\<close> for \<^verbatim>\<open>c\<close>
  that overlap at the \<^verbatim>\<open>await\<close> also open two, with no \<open>unsubscribe\<close> at all.
\<close>

theorem two_upstreams_counterexample:
  "opened w_again = [''c'', ''c''] \<and> count_list (opened w_again) ''c'' = 2
   \<and> map name (heap w_again) = [''c'', ''c'']
   \<and> map channel (heap w_again) = [Some 0, Some 1]
   \<and> tasks w_again 0 = Some Waiting \<and> tasks w_again 1 = Some Waiting
   \<and> listeners_of w_again 0 = [1] \<and> listeners_of w_again 1 = [2]
   \<and> subscriptions w_again ''c'' = Some 1
   \<and> fst (subscribe_begin 1 ''c'' w_conn) = Suspended (Pending 1 ''c'' 0)
   \<and> fst (subscribe_begin 2 ''c'' (snd (subscribe_begin 1 ''c'' w_conn))) = Suspended (Pending 2 ''c'' 1)
   \<and> count_list (opened w_race) ''c'' = 2
   \<and> map channel (heap w_race) = [Some 0, Some 1]
   \<and> tasks w_race 0 = Some Scheduled \<and> tasks w_race 1 = Some Scheduled"
  by (simp add: w_again_def w_race_def w_conn_def model_defs)

text \<open>
  C10.  Each event keeps the dictionary consistent with the objects: when every entry
  leads to an object whose \<^verbatim>\<open>name\<close> is the key of the entry, this still holds after the
  event, and so after any run of events.
\<close>

theorem key_consistent_preserved:
  assumes "key_consistent w"
  shows "key_consistent (step e w) \<and> key_consistent (run es w)"
  using assms by (simp add: key_consistent_step key_consistent_run del: step.simps)

theorem key_consistent_preserved_witness:
  "key_consistent w_two
   \<and> key_consistent (step (Unsubscribe ''c'') w_two)
   \<and> key_consistent (run [Unsubscribe ''c'', Subscribe 3 ''c'' Opened] w_two)
   \<and> subscriptions (run [Unsubscribe ''c'', Subscribe 3 ''c'' Opened] w_two) ''c'' = Some 2
   \<and> subscriptions (run [Unsubscribe ''c'', Subscribe 3 ''c'' Opened] w_two) ''d'' = Some 1
   \<and> map name (heap (run [Unsubscribe ''c'', Subscribe 3 ''c'' Opened] w_two)) = [''c'', ''d'', ''c'']"
proof -
  have h: "key_consistent w_two"
    unfolding w_two_def by (rule key_consistent_run [OF key_consistent_init])
  have o: "subscriptions (run [Unsubscribe ''c'', Subscribe 3 ''c'' Opened] w_two) ''c'' = Some 2"
    "subscriptions (run [Unsubscribe ''c'', Subscribe 3 ''c'' Opened] w_two) ''d'' = Some 1"
    "map name (heap (run [Unsubscribe ''c'', Subscribe 3 ''c'' Opened] w_two)) = [''c'', ''d'', ''c'']"
    by (simp_all add: w_two_def model_defs)
  show ?thesis
    using h key_consistent_preserved [OF h] o by (simp del: step.simps)
qed

text \<open>
  C7.  When a call of \<open>subscribe\<close> for listener \<open>l\<close> and channel \<open>c\<close> has returned, a
  second call for the same pair returns and leaves the whole state as the first call
  left it; in particular the listener set of the relay is the same.  One pass of any
  relay over a message \<open>m\<close> then appends \<open>m\<close> to the queue of \<open>l\<close> once or not at all.
\<close>

theorem subscribe_twice:
  assumes "fst (subscribe l c r w) = Returned"
  shows "subscribe l c r' (snd (subscribe l c r w)) = (Returned, snd (subscribe l c r w))
    \<and> (\<forall>a m. items (queues (snd (body a m (snd (subscribe l c r' (snd (subscribe l c r w)))))) l)
            = items (queues w l) @ [m]
          \<or> items (queues (snd (body a m (snd (subscribe l c r' (snd (subscribe l c r w)))))) l)
            = items (queues w l))"
proof -
  have once: "subscribe l c r' (snd (subscribe l c r w)) = (Returned, snd (subscribe l c r w))"
  proof (cases "subscriptions w c")
    case (Some a)
    have "subscriptions (add_listener a l w) c = Some a"
      using Some by (simp add: add_listener_def upd_sub_def)
    then show ?thesis
      using Some by (simp add: subscribe_existing add_listener_twice)
  next
    case None
    have "redis w \<noteq> None \<and> r = Opened"
    proof (rule ccontr)
      assume "\<not> (redis w \<noteq> None \<and> r = Opened)"
      then have "redis w = None \<or> r = Unavailable" by (cases r) auto
      from subscribe_new_failed [OF None this] assms show False by simp
    qed
    then have r: "redis w \<noteq> None" "r = Opened" by simp_all
    show ?thesis
      by (simp add: r(2) subscribe_new_opened [OF None r(1)] subscribe_existing
          add_listener_def upd_sub_def dlist_insert_twice)
  qed
  have q: "queues (snd (subscribe l c r w)) = queues w"
    by (cases "subscriptions w c"; cases r; cases "redis w")
      (simp_all add: subscribe_def subscribe_begin_def subscribe_resume_def Let_def
        add_listener_def upd_sub_def set_task_def)
  show ?thesis
    by (simp add: once body_queues q)
qed

theorem subscribe_twice_witness:
  "fst (subscribe 2 ''c'' Opened w_conn) = Returned
   \<and> subscribe 2 ''c'' Opened (snd (subscribe 2 ''c'' Opened w_conn))
       = (Returned, snd (subscribe 2 ''c'' Opened w_conn))
   \<and> listeners_of (snd (subscribe 2 ''c'' Opened (snd (subscribe 2 ''c'' Opened w_conn)))) 0 = [2]
   \<and> items (queues (snd (body 0 ''m'' (snd (subscribe 2 ''c'' Opened
        (snd (subscribe 2 ''c'' Opened w_conn)))))) 2) = [''m'']"
proof -
  have h: "fst (subscribe 2 ''c'' Opened w_conn) = Returned"
    by (simp add: w_conn_def model_defs)
  have o: "listeners_of (snd (subscribe 2 ''c'' Opened w_conn)) 0 = [2]"
    "queues (snd (subscribe 2 ''c'' Opened w_conn)) 2 = Queue"
    by (simp_all add: w_conn_def model_defs)
  have once: "subscribe 2 ''c'' Opened (snd (subscribe 2 ''c'' Opened w_conn))
       = (Returned, snd (subscribe 2 ''c'' Opened w_conn))"
    using subscribe_twice [OF h, of Opened] by (rule conjunct1)
  show ?thesis
    using h by (simp add: once o body_queues Queue_def full_def)
qed

subsection \<open>The relay\<close>

text \<open>
  C5.  One pass of the loop body over a message \<open>m\<close> raises nothing.  The sweep leaves
  the store of objects, hence the listener set, as it was.  Afterwards every listener of
  the relay whose queue was not full has \<open>m\<close> at the end of its queue and is still a
  listener, whatever happened to the others; every listener whose queue was full has its
  queue unchanged and is no longer in the set.  Queues of other listeners are untouched.
  A relay loop that is fed messages only never ends with an exception: it waits for the
  next message or has finished.
\<close>

theorem broadcast_delivery:
  "fst (body a m w) = None
   \<and> heap (snd (sweep m (listeners_of w a) [] w)) = heap w
   \<and> (\<forall>l \<in> set (listeners_of w a).
        if full (queues w l)
        then queues (snd (body a m w)) l = queues w l \<and> l \<notin> set (listeners_of (snd (body a m w)) a)
        else queues (snd (body a m w)) l = (queues w l)\<lparr>items := items (queues w l) @ [m]\<rparr>
          \<and> l \<in> set (listeners_of (snd (body a m w)) a))
   \<and> (\<forall>l. l \<notin> set (listeners_of w a) \<longrightarrow>
        queues (snd (body a m w)) l = queues w l \<and> l \<notin> set (listeners_of (snd (body a m w)) a))
   \<and> (tasks (broadcast a (map Message ms) w) a = Some Waiting
      \<or> tasks (broadcast a (map Message ms) w) a = Some Finished)"
  using broadcast_never_fails [of a ms w]
  by (simp add: body_no_error sweep_frame body_queues body_listeners)

theorem broadcast_delivery_witness:
  "listeners_of w_mixed 0 = [2, 1] \<and> full (queues w_mixed 1) \<and> \<not> full (queues w_mixed 2)
   \<and> fst (body 0 ''a'' w_mixed) = None
   \<and> queues (snd (body 0 ''a'' w_mixed)) 1 = \<lparr>items = [''x''], maxsize = 1\<rparr>
   \<and> 1 \<notin> set (listeners_of (snd (body 0 ''a'' w_mixed)) 0)
   \<and> queues (snd (body 0 ''a'' w_mixed)) 2 = \<lparr>items = [''a''], maxsize = 0\<rparr>
   \<and> 2 \<in> set (listeners_of (snd (body 0 ''a'' w_mixed)) 0)"
proof -
  have h: "listeners_of w_mixed 0 = [2, 1]"
    "queues w_mixed (Suc 0) = \<lparr>items = [''x''], maxsize = Suc 0\<rparr>"
    "queues w_mixed 2 = \<lparr>items = [], maxsize = 0\<rparr>"
    by (simp_all add: w_mixed_def model_defs)
  show ?thesis using broadcast_delivery [of 0 "''a''" w_mixed "[]"] by (simp add: h full_def)
qed

text \<open>
  C6, as the code has it.  The channel \<open>c\<close> has no entry and the manager is connected, or
  the relay of its entry is scheduled or waiting.  The listeners \<open>ls\<close> subscribe to \<open>c\<close>,
  the relay task starts then if it has not started before, further listeners \<open>ls'\<close> may
  follow, and then the upstream channel of that relay yields the messages \<open>ms\<close>.  All
  these listeners have the unbounded queue that \<^verbatim>\<open>SSEHandler\<close> builds.  Then the relay
  is the one registered for \<open>c\<close> and the queue of each listener holds what it held
  before, followed by \<open>ms\<close>: every message once, in the order the channel yielded them.
\<close>

theorem fan_out_in_order:
  assumes "relay_live w c" and "ls \<noteq> []"
    and "\<forall>l \<in> set (ls @ ls'). maxsize (queues w l) = 0"
  shows "subscriptions (run (map (\<lambda>l. Subscribe l c Opened) ls @ Start (relay_of w c)
            # map (\<lambda>l. Subscribe l c Opened) ls'
            @ map (\<lambda>m. Upstream (relay_of w c) (Message m)) ms) w) c = Some (relay_of w c)
    \<and> (\<forall>l \<in> set (ls @ ls').
          items (queues (run (map (\<lambda>l. Subscribe l c Opened) ls @ Start (relay_of w c)
            # map (\<lambda>l. Subscribe l c Opened) ls'
            @ map (\<lambda>m. Upstream (relay_of w c) (Message m)) ms) w) l)
          = items (queues w l) @ ms)"
proof -
  let ?a = "relay_of w c"
  let ?w1 = "run (map (\<lambda>l. Subscribe l c Opened) ls) w"
  define w2 where "w2 = step (Start ?a) ?w1"
  let ?w3 = "run (map (\<lambda>l. Subscribe l c Opened) ls') w2"
  let ?w4 = "run (map (\<lambda>m. Upstream ?a (Message m)) ms) ?w3"
  note a1 = subscribe_live [OF assms(1,2)]
  from a1 assms(2) have ne: "listeners_of ?w1 ?a \<noteq> []"
    by (cases ls) auto
  have w2: "w2 = set_task ?a Waiting ?w1 \<or> (w2 = ?w1 \<and> tasks ?w1 ?a = Some Waiting)"
    using a1 ne by (auto simp add: w2_def)
  have a2: "subscriptions w2 c = Some ?a" "?a < length (heap w2)" "tasks w2 ?a = Some Waiting"
    "queues w2 = queues w" "set ls \<subseteq> set (listeners_of w2 ?a)"
    using a1 w2 by (auto simp add: set_task_frame)
  note m = subscribe_more [OF a2(1,2), of ls']
  have a3: "subscriptions ?w3 c = Some ?a" "tasks ?w3 ?a = Some Waiting"
    "queues ?w3 = queues w" "set (ls @ ls') \<subseteq> set (listeners_of ?w3 ?a)"
    using m a2 by auto
  have ne3: "ls @ ls' \<noteq> []"
    using assms(2) by simp
  have un: "\<forall>l \<in> set (ls @ ls'). maxsize (queues ?w3 l) = 0"
    using assms(3) by (simp only: a3)
  note f = relay_feed_some [OF a3(2) ne3 a3(4) un, of ms]
  have s4: "subscriptions ?w4 c = Some ?a"
  proof -
    have "subscriptions (run (map (\<lambda>m. Upstream ?a (Message m)) ms) v) = subscriptions v" for v
      by (induction ms arbitrary: v) (simp_all add: run_Nil run_Cons resume_frame)
    then show ?thesis by (simp add: a3)
  qed
  have "run (map (\<lambda>l. Subscribe l c Opened) ls @ Start ?a # map (\<lambda>l. Subscribe l c Opened) ls'
            @ map (\<lambda>m. Upstream ?a (Message m)) ms) w = ?w4"
    by (simp only: run_append run_Cons w2_def)
  moreover have "\<forall>l \<in> set (ls @ ls'). items (queues ?w4 l) = items (queues w l) @ ms"
    using f by (simp only: a3) simp
  ultimately show ?thesis
    using s4 by simp
qed

theorem fan_out_in_order_witness:
  "relay_live w_conn ''c'' \<and> relay_of w_conn ''c'' = 0
   \<and> relay_live w_one ''c'' \<and> relay_of w_one ''c'' = 0
   \<and> maxsize (queues w_conn 2) = 0 \<and> maxsize (queues w_conn 3) = 0 \<and> maxsize (queues w_conn 4) = 0
   \<and> items (queues (run [Subscribe 2 ''c'' Opened, Subscribe 3 ''c'' Opened, Start 0,
        Subscribe 4 ''c'' Opened, Upstream 0 (Message ''a''), Upstream 0 (Message ''b'')] w_conn) 2)
      = [''a'', ''b'']
   \<and> items (queues (run [Subscribe 2 ''c'' Opened, Subscribe 3 ''c'' Opened, Start 0,
        Subscribe 4 ''c'' Opened, Upstream 0 (Message ''a''), Upstream 0 (Message ''b'')] w_conn) 3)
      = [''a'', ''b'']
   \<and> items (queues (run [Subscribe 2 ''c'' Opened, Subscribe 3 ''c'' Opened, Start 0,
        Subscribe 4 ''c'' Opened, Upstream 0 (Message ''a''), Upstream 0 (Message ''b'')] w_conn) 4)
      = [''a'', ''b'']
   \<and> items (queues (run [Subscribe 2 ''c'' Opened, Start 0,
        Upstream 0 (Message ''a''), Upstream 0 (Message ''b'')] w_one) 2)
      = [''a'', ''b'']"
proof -
  have h: "relay_live w_conn ''c''" "[2, 3] \<noteq> ([] :: listener list)"
    "\<forall>l \<in> set ([2, 3] @ [4]). maxsize (queues w_conn l) = 0"
    and o: "relay_of w_conn ''c'' = 0" "queues w_conn = (\<lambda>l. Queue)"
    by (simp_all add: relay_live_def relay_of_def w_conn_def model_defs)
  have h': "relay_live w_one ''c''" "[2] \<noteq> ([] :: listener list)"
    "\<forall>l \<in> set ([2] @ []). maxsize (queues w_one l) = 0"
    and o': "relay_of w_one ''c'' = 0" "queues w_one = (\<lambda>l. Queue)"
    by (simp_all add: relay_live_def relay_of_def w_one_def model_defs)
  show ?thesis
    using h(1) h'(1) fan_out_in_order [OF h, of "[''a'', ''b'']"]
      fan_out_in_order [OF h', of "[''a'', ''b'']"]
    by (simp add: o o' Queue_def)
qed

text \<open>
  C6 as stated fails for a channel whose entry belongs to a relay that has ended.  In
  \<open>w_failed\<close> the relay of \<^verbatim>\<open>c\<close> has failed with its upstream channel and the dictionary still
  has its entry.  Listeners 2 and 3, with unbounded queues, subscribe and their calls
  return: they are added to the old object, no task is scheduled and no upstream
  subscription is opened.  No task can run or be woken in that state, and the queues of
  both listeners stay empty.
\<close>

theorem fan_out_dead_relay_counterexample:
  "subscriptions w_failed ''c'' = Some 0 \<and> tasks w_failed 0 = Some (Failed SourceClosed)
   \<and> maxsize (queues w_failed 2) = 0 \<and> maxsize (queues w_failed 3) = 0
   \<and> fst (subscribe 2 ''c'' Opened w_failed) = Returned
   \<and> fst (subscribe 3 ''c'' Opened (snd (subscribe 2 ''c'' Opened w_failed))) = Returned
   \<and> listeners_of (run [Subscribe 2 ''c'' Opened, Subscribe 3 ''c'' Opened] w_failed) 0 = [3, 2, 1]
   \<and> tasks (run [Subscribe 2 ''c'' Opened, Subscribe 3 ''c'' Opened] w_failed)
       = [0 \<mapsto> Failed SourceClosed]
   \<and> opened (run [Subscribe 2 ''c'' Opened, Subscribe 3 ''c'' Opened] w_failed) = [''c'']
   \<and> (\<forall>b. step (Start b) (run [Subscribe 2 ''c'' Opened, Subscribe 3 ''c'' Opened] w_failed)
         = run [Subscribe 2 ''c'' Opened, Subscribe 3 ''c'' Opened] w_failed)
   \<and> (\<forall>b y. step (Upstream b y) (run [Subscribe 2 ''c'' Opened, Subscribe 3 ''c'' Opened] w_failed)
         = run [Subscribe 2 ''c'' Opened, Subscribe 3 ''c'' Opened] w_failed)
   \<and> items (queues (run [Subscribe 2 ''c'' Opened, Subscribe 3 ''c'' Opened, Start 0,
        Upstream 0 (Message ''a''), Upstream 0 (Message ''b'')] w_failed) 2) = []
   \<and> items (queues (run [Subscribe 2 ''c'' Opened, Subscribe 3 ''c'' Opened, Start 0,
        Upstream 0 (Message ''a''), Upstream 0 (Message ''b'')] w_failed) 3) = []"
  by (simp add: w_failed_def model_defs)

text \<open>
  C3, as the code has it.  The relay never writes the dictionary: whatever the loop does,
  also when it ends, the entry of its channel stays.  A \<open>subscribe\<close> for a channel that
  has an entry returns after adding the listener to the object of that entry; it leaves
  the dictionary and the tasks as they are, opens no upstream subscription and builds
  no object.  This holds in particular when the relay of that entry has ended.
\<close>

theorem terminated_relay_stays_registered:
  assumes "subscriptions w c = Some a" and "a < length (heap w)"
  shows "subscriptions (broadcast a ys w) c = Some a
    \<and> subscriptions (resume a y w) c = Some a
    \<and> fst (subscribe l c r w) = Returned
    \<and> subscriptions (snd (subscribe l c r w)) = subscriptions w
    \<and> tasks (snd (subscribe l c r w)) = tasks w
    \<and> opened (snd (subscribe l c r w)) = opened w
    \<and> length (heap (snd (subscribe l c r w))) = length (heap w)
    \<and> set (listeners_of (snd (subscribe l c r w)) a) = insert l (set (listeners_of w a))"
  using assms
  by (simp add: broadcast_frame resume_frame subscribe_existing add_listener_def upd_sub_def
      listeners_of_def listeners_at_def)

theorem terminated_relay_stays_registered_witness:
  "subscriptions w_dead ''c'' = Some 0 \<and> 0 < length (heap w_dead)
   \<and> tasks w_dead 0 = Some Finished
   \<and> subscriptions (snd (subscribe 2 ''c'' Opened w_dead)) ''c'' = Some 0
   \<and> tasks (snd (subscribe 2 ''c'' Opened w_dead)) 0 = Some Finished
   \<and> opened (snd (subscribe 2 ''c'' Opened w_dead)) = [''c'']
   \<and> set (listeners_of (snd (subscribe 2 ''c'' Opened w_dead)) 0) = {2}"
proof -
  have h: "subscriptions w_dead ''c'' = Some 0" "0 < length (heap w_dead)"
    and o: "tasks w_dead 0 = Some Finished" "opened w_dead = [''c'']" "listeners_of w_dead 0 = []"
    by (simp_all add: w_dead_def model_defs)
  show ?thesis
    using h terminated_relay_stays_registered [OF h, of "[]" Closed 2 Opened] by (simp add: o)
qed

text \<open>
  C3 as stated fails.  In \<open>w_dead\<close> the relay of \<^verbatim>\<open>c\<close> has finished after its only listener
  was removed, in \<open>w_failed\<close> it has failed with its upstream channel.  In both the
  dictionary still has the entry.  A later \<open>subscribe\<close> of listener 2 adds it to the old
  object: no new object, no new task, no new upstream subscription, and the old task
  stays ended, so a message on the upstream channel changes nothing.
\<close>

theorem dead_relay_reused_counterexample:
  "tasks w_dead 0 = Some Finished \<and> subscriptions w_dead ''c'' = Some 0
   \<and> subscriptions (step (Subscribe 2 ''c'' Opened) w_dead) ''c'' = Some 0
   \<and> listeners_of (step (Subscribe 2 ''c'' Opened) w_dead) 0 = [2]
   \<and> tasks (step (Subscribe 2 ''c'' Opened) w_dead) 0 = Some Finished
   \<and> tasks (step (Subscribe 2 ''c'' Opened) w_dead) 1 = None
   \<and> opened (step (Subscribe 2 ''c'' Opened) w_dead) = [''c'']
   \<and> length (heap (step (Subscribe 2 ''c'' Opened) w_dead)) = 1
   \<and> step (Upstream 0 (Message ''n'')) (step (Subscribe 2 ''c'' Opened) w_dead)
       = step (Subscribe 2 ''c'' Opened) w_dead
   \<and> tasks w_failed 0 = Some (Failed SourceClosed) \<and> subscriptions w_failed ''c'' = Some 0
   \<and> subscriptions (step (Subscribe 2 ''c'' Opened) w_failed) ''c'' = Some 0
   \<and> listeners_of (step (Subscribe 2 ''c'' Opened) w_failed) 0 = [2, 1]
   \<and> tasks (step (Subscribe 2 ''c'' Opened) w_failed) 0 = Some (Failed SourceClosed)
   \<and> opened (step (Subscribe 2 ''c'' Opened) w_failed) = [''c'']
   \<and> length (heap (step (Subscribe 2 ''c'' Opened) w_failed)) = 1"
  by (simp add: w_dead_def w_failed_def model_defs)

end
